theory Spec2Isabelle
  imports Complex_Main
begin

section \<open>C++ \<open>double\<close>: IEEE 754 binary64 addition\<close>

text \<open>
  The three addons compute \<^verbatim>\<open>current + 42\<close> on a C++ \<^verbatim>\<open>double\<close>. A double is
  NaN, a signed infinity, or a finite number \<open>(-1)^s * m * 2^e\<close>. The finite numbers are kept
  in one canonical form: \<open>m\<close> odd, or \<open>m = 0\<close> and \<open>e = 0\<close> for the two zeros. A finite
  number is a binary64 value when \<open>m < 2^53\<close>, \<open>-1074 \<le> e\<close> and it lies below \<open>2^1024\<close>.
\<close>

datatype double = NaN | Infinity bool | Finite bool nat int

fun bitlen :: "nat \<Rightarrow> nat" where
  "bitlen n = (if n = 0 then 0 else Suc (bitlen (n div 2)))"

text \<open>Drop the trailing zero bits of a significand, raising the exponent.\<close>

function strip :: "nat \<Rightarrow> int \<Rightarrow> nat \<times> int" where
  "strip m e = (if m = 0 then (0, 0) else if odd m then (m, e) else strip (m div 2) (e + 1))"
  by pat_completeness auto
termination
  by (relation "measure fst") auto

declare bitlen.simps [simp del]
declare strip.simps [simp del]

text \<open>
  \<open>round_to_double s m e\<close> is the binary64 value nearest to \<open>(-1)^s * m * 2^e\<close> for \<open>m > 0\<close>
  and \<open>e \<ge> -1074\<close>: the significand is cut to 53 bits, a remainder above one half rounds
  up, exactly one half rounds to the even significand, and a result of \<open>2^1024\<close> or more
  is an infinity.
\<close>

definition round_to_double :: "bool \<Rightarrow> nat \<Rightarrow> int \<Rightarrow> double" where
  "round_to_double s m e =
     (let k = bitlen m - 53;
          q = m div 2 ^ k;
          r = m mod 2 ^ k;
          q' = (if 2 ^ k < 2 * r \<or> (2 * r = 2 ^ k \<and> odd q) then q + 1 else q);
          e' = e + int k
      in if 1024 < int (bitlen q') + e' then Infinity s
         else (case strip q' e' of (m', e'') \<Rightarrow> Finite s m' e''))"

definition signed :: "bool \<Rightarrow> nat \<Rightarrow> int" where
  "signed s m = (if s then - int m else int m)"

text \<open>
  Addition aligns both operands at the smaller exponent, adds exactly and rounds once.
  An exact zero sum is \<open>+0\<close> unless both operands are negative (\<open>-0 + -0 = -0\<close>).
\<close>

fun add :: "double \<Rightarrow> double \<Rightarrow> double" where
  "add NaN _ = NaN"
| "add _ NaN = NaN"
| "add (Infinity s) (Infinity t) = (if s = t then Infinity s else NaN)"
| "add (Infinity s) (Finite _ _ _) = Infinity s"
| "add (Finite _ _ _) (Infinity t) = Infinity t"
| "add (Finite s m e) (Finite t n f) =
     (let g = min e f;
          z = signed s m * 2 ^ nat (e - g) + signed t n * 2 ^ nat (f - g)
      in if z = 0 then Finite (s \<and> t) 0 0
         else round_to_double (z < 0) (nat \<bar>z\<bar>) g)"

text \<open>The conversion of a C++ \<^verbatim>\<open>int\<close> to \<^verbatim>\<open>double\<close>, as in the literal \<^verbatim>\<open>42\<close>.\<close>

definition double_of_int :: "int \<Rightarrow> double" where
  "double_of_int n = (if n = 0 then Finite False 0 0 else round_to_double (n < 0) (nat \<bar>n\<bar>) 0)"

text \<open>The exact value of a finite double, as a rational.\<close>

fun value_of :: "double \<Rightarrow> rat option" where
  "value_of (Finite s m e) =
     Some (if 0 \<le> e then of_int (signed s m) * 2 ^ nat e else of_int (signed s m) / 2 ^ nat (- e))"
| "value_of _ = None"

section \<open>The engine: values, objects, handles\<close>

text \<open>
  The engine's heap holds the shared records. A record is a key-value store from property
  names to values; a record reference is the address of the record in the heap. Property
  values are the primitive values whose conversion to a number needs no parsing and runs
  no script: \<open>undefined\<close>, \<open>null\<close>, booleans and numbers.
\<close>

type_synonym objref = nat

datatype jsvalue = Undefined | Null | Boolean bool | Number double

type_synonym jsobject = "string \<rightharpoonup> jsvalue"

text \<open>\<^verbatim>\<open>Object::Get(key)\<close>: the value of the property, \<open>undefined\<close> when it is absent.\<close>

definition Get :: "jsobject \<Rightarrow> string \<Rightarrow> jsvalue" where
  "Get obj key = (case obj key of None \<Rightarrow> Undefined | Some v \<Rightarrow> v)"

text \<open>
  \<^verbatim>\<open>Value::NumberValue()\<close> is the language's conversion to a number: \<open>undefined\<close> is NaN,
  \<open>null\<close> is \<open>+0\<close>, \<open>true\<close> is 1, \<open>false\<close> is \<open>+0\<close>, a number is itself.
\<close>

fun NumberValue :: "jsvalue \<Rightarrow> double" where
  "NumberValue Undefined = NaN"
| "NumberValue Null = Finite False 0 0"
| "NumberValue (Boolean b) = (if b then Finite False 1 0 else Finite False 0 0)"
| "NumberValue (Number d) = d"

text \<open>\<^verbatim>\<open>Number::New(isolate, d)\<close> and \<^verbatim>\<open>Object::Set(key, value)\<close>.\<close>

definition Number_New :: "double \<Rightarrow> jsvalue" where
  "Number_New d = Number d"

definition Set :: "jsobject \<Rightarrow> string \<Rightarrow> jsvalue \<Rightarrow> jsobject" where
  "Set obj key v = obj(key \<mapsto> v)"

text \<open>
  The first argument of \<^verbatim>\<open>setup\<close> and \<^verbatim>\<open>start\<close> is an object, or it is \<open>undefined\<close> or
  \<open>null\<close> (also when the call passes no argument). \<^verbatim>\<open>Value::ToObject()\<close> is the identity
  on an object and returns the empty handle for \<open>undefined\<close> and \<open>null\<close>. A handle is a
  record reference, or empty (\<open>None\<close>). Arguments of the other primitive types, which
  \<^verbatim>\<open>ToObject\<close> wraps in a fresh object, are left out.
\<close>

datatype jsarg = Object objref | Nullish

fun ToObject :: "jsarg \<Rightarrow> objref option" where
  "ToObject (Object r) = Some r"
| "ToObject Nullish = None"

text \<open>\<^verbatim>\<open>Local<Object>::New(isolate, persist)\<close>: a local handle to what \<open>persist\<close> refers to,
  empty when \<open>persist\<close> is empty.\<close>

definition Local_New :: "objref option \<Rightarrow> objref option" where
  "Local_New p = p"

section \<open>The process\<close>

text \<open>
  The state of the process that has loaded one of the addons: the engine's heap, the addon's
  global \<^verbatim>\<open>Persistent<Object> persist\<close>, the detached worker threads with the point each
  has reached in its loop, the thread that holds the isolate's \<^verbatim>\<open>v8::Locker\<close>, and the log
  of the calls the lock-guarded worker makes, in program order. The threads are the host
  thread, on which the engine runs the script and calls the addon's entry points, and the
  workers the addon detaches, numbered in the order of their creation.
\<close>

datatype thread = Host | Worker nat

datatype pc = Sleeping | AcquiringLock | InCriticalSection

datatype call =
    SleepFor | Cerr
  | LockerCtor | LockerDtor
  | IsolateEnter | HandleScopeCtor | HandleScopeDtor
  | StringNewFromUtf8 | LocalNew | ValueToObject | ObjectGet | ValueNumberValue
  | NumberNew | ObjectSet

record process =
  heap :: "objref \<Rightarrow> jsobject"
  persist :: "objref option"
  threads :: "pc list"
  locker :: "thread option"
  calls :: "(nat \<times> call) list"

text \<open>
  \<open>EmptyHandle\<close>: the code calls a method through an empty \<^verbatim>\<open>Local\<close>, a null pointer
  (undefined behaviour; the process does not continue). \<open>NotLocked\<close>: a thread that does
  not hold the locker constructs a \<^verbatim>\<open>HandleScope\<close>; the engine checks the locking there
  and aborts the process. \<open>Blocked\<close>: the \<^verbatim>\<open>Locker\<close> constructor cannot return in this
  state. \<open>NoThread\<close>: no such worker was spawned.
\<close>

datatype fault = EmptyHandle | NotLocked | Blocked | NoThread

text \<open>
  What happens in the process: the host thread calls \<^verbatim>\<open>start\<close> with an argument, or a
  worker takes the next step of its loop.
\<close>

datatype action = HostStart jsarg | WorkerStep nat

definition and_then :: "('s \<Rightarrow> fault + 's) \<Rightarrow> ('s \<Rightarrow> fault + 's) \<Rightarrow> 's \<Rightarrow> fault + 's" where
  "and_then f g s = (case f s of Inl e \<Rightarrow> Inl e | Inr s' \<Rightarrow> g s')"

fun repeat :: "nat \<Rightarrow> ('s \<Rightarrow> fault + 's) \<Rightarrow> 's \<Rightarrow> fault + 's" where
  "repeat 0 f s = Inr s"
| "repeat (Suc n) f s = (case f s of Inl e \<Rightarrow> Inl e | Inr s' \<Rightarrow> repeat n f s')"

section \<open>mutate01: the synchronous addon\<close>

text \<open>\<^verbatim>\<open>persist.Reset(isolate, args[0]->ToObject())\<close>\<close>

definition Setup :: "process \<Rightarrow> jsarg \<Rightarrow> process" where
  "Setup s arg0 = s\<lparr>persist := ToObject arg0\<rparr>"

text \<open>
  \<^verbatim>\<open>Mutate\<close> takes a local handle to the registered record, reads property \<open>x\<close> as a double
  and stores \<open>current + 42\<close>. It has no check for an empty handle, sets no return value and
  throws nothing.
\<close>

definition Mutate :: "process \<Rightarrow> fault + process" where
  "Mutate s =
     (case Local_New (persist s) of
        None \<Rightarrow> Inl EmptyHandle
      | Some target \<Rightarrow>
          (let key = ''x'';
               current = NumberValue (Get (heap s target) key)
           in Inr (s\<lparr>heap := (heap s)
                 (target := Set (heap s target) key (Number_New (add current (double_of_int 42))))\<rparr>)))"

section \<open>mutate02: the unsynchronized worker\<close>


text \<open>
  One step of worker \<open>t\<close> in the loop of \<^verbatim>\<open>mutate\<close>:
  \<^item> asleep: the sleep ends, and the worker is in the section that uses the engine, for
    which it takes no locker;
  \<^item> in that section: the worker constructs its \<^verbatim>\<open>HandleScope\<close>. Unless the worker holds
    the locker, which nothing in mutate02 gives it, the engine aborts the process there.
    Otherwise the section does the same read and write as \<^verbatim>\<open>Mutate\<close>, and the worker sleeps
    again.
\<close>

definition mutate_v2_step :: "nat \<Rightarrow> process \<Rightarrow> fault + process" where
  "mutate_v2_step t s =
     (if length (threads s) \<le> t then Inl NoThread
      else if threads s ! t = Sleeping
      then Inr (s\<lparr>threads := (threads s)[t := InCriticalSection]\<rparr>)
      else if locker s \<noteq> Some (Worker t) then Inl NotLocked
      else case Local_New (persist s) of
        None \<Rightarrow> Inl EmptyHandle
      | Some target \<Rightarrow>
          (let key = ''x'';
               current = NumberValue (Get (heap s target) key)
           in Inr (s\<lparr>heap := (heap s)
                 (target := Set (heap s target) key (Number_New (add current (double_of_int 42)))),
                 threads := (threads s)[t := Sleeping]\<rparr>)))"

text \<open>One iteration of worker \<open>t\<close>: the two steps from sleep to sleep.\<close>

definition mutate_v2_wake :: "nat \<Rightarrow> process \<Rightarrow> fault + process" where
  "mutate_v2_wake t = and_then (mutate_v2_step t) (mutate_v2_step t)"

text \<open>The loop never exits; \<open>mutate_v2 n t\<close> is its first \<open>n\<close> iterations.\<close>

definition mutate_v2 :: "nat \<Rightarrow> nat \<Rightarrow> process \<Rightarrow> fault + process" where
  "mutate_v2 n t = repeat n (mutate_v2_wake t)"



section \<open>mutate03: the lock-guarded worker\<close>

text \<open>\<^verbatim>\<open>Start\<close> is that of mutate02; the worker it detaches runs the loop below.\<close>

definition Start_v3 :: "process \<Rightarrow> jsarg \<Rightarrow> process" where
  "Start_v3 s arg0 = s\<lparr>persist := ToObject arg0, threads := threads s @ [Sleeping]\<rparr>"

text \<open>Worker \<open>t\<close> makes the calls \<open>cs\<close>, in this order.\<close>

definition record_calls :: "nat \<Rightarrow> call list \<Rightarrow> process \<Rightarrow> process" where
  "record_calls t cs s = s\<lparr>calls := calls s @ map (Pair t) cs\<rparr>"

text \<open>
  One step of worker \<open>t\<close> in the loop of \<^verbatim>\<open>mutate\<close>:
  \<^item> asleep: the timer fires, the worker prints that it tries to enter;
  \<^item> in the \<^verbatim>\<open>Locker\<close> constructor: it returns once no thread holds the isolate, and the
    worker holds it from then on;
  \<^item> holding the isolate: the worker enters it, opens a handle scope (it holds the locker,
    so the engine's check passes), reads and writes property \<open>x\<close>; at the end of the
    block the handle scope and then the locker are destroyed, which releases the isolate,
    and the worker sleeps again.
\<close>

definition mutate_v3_step :: "nat \<Rightarrow> process \<Rightarrow> fault + process" where
  "mutate_v3_step t s =
     (if length (threads s) \<le> t then Inl NoThread
      else case threads s ! t of
        Sleeping \<Rightarrow>
          Inr (record_calls t [SleepFor, Cerr] (s\<lparr>threads := (threads s)[t := AcquiringLock]\<rparr>))
      | AcquiringLock \<Rightarrow>
          (if locker s = None
           then Inr (record_calls t [LockerCtor]
                  (s\<lparr>threads := (threads s)[t := InCriticalSection],
                     locker := Some (Worker t)\<rparr>))
           else Inl Blocked)
      | InCriticalSection \<Rightarrow>
          (case Local_New (persist s) of
             None \<Rightarrow> Inl EmptyHandle
           | Some target \<Rightarrow>
               (let key = ''x'';
                    current = NumberValue (Get (heap s target) key)
                in Inr (record_calls t [IsolateEnter, Cerr, HandleScopeCtor, StringNewFromUtf8, LocalNew,
                               ValueToObject, ObjectGet, ValueNumberValue, NumberNew, ObjectSet,
                               HandleScopeDtor, LockerDtor]
                     (s\<lparr>heap := (heap s)
                         (target := Set (heap s target) key
                            (Number_New (add current (double_of_int 42)))),
                       threads := (threads s)[t := Sleeping],
                       locker := None\<rparr>)))))"

text \<open>One wake of worker \<open>t\<close>: the three steps from sleep to sleep, when none is blocked.\<close>

definition mutate_v3_wake :: "nat \<Rightarrow> process \<Rightarrow> fault + process" where
  "mutate_v3_wake t = and_then (mutate_v3_step t) (and_then (mutate_v3_step t) (mutate_v3_step t))"

text \<open>The loop never exits; \<open>mutate_v3 n t\<close> is its first \<open>n\<close> wakes.\<close>

definition mutate_v3 :: "nat \<Rightarrow> nat \<Rightarrow> process \<Rightarrow> fault + process" where
  "mutate_v3 n t = repeat n (mutate_v3_wake t)"

text \<open>
  The process as a whole, as for mutate02. A sequence that asks a blocked worker to step is
  not an execution.
\<close>

fun perform_v3 :: "action \<Rightarrow> process \<Rightarrow> fault + process" where
  "perform_v3 (HostStart arg0) s = Inr (Start_v3 s arg0)"
| "perform_v3 (WorkerStep t) s = mutate_v3_step t s"

fun run_v3 :: "action list \<Rightarrow> process \<Rightarrow> fault + process" where
  "run_v3 [] s = Inr s"
| "run_v3 (a # as) s = (case perform_v3 a s of Inl e \<Rightarrow> Inl e | Inr s' \<Rightarrow> run_v3 as s')"

section \<open>Notions used to state the properties\<close>

text \<open>
  The process right after an addon is loaded, over an engine heap \<open>h\<close>: the global
  \<^verbatim>\<open>persist\<close> is default-constructed, hence empty; no worker exists; the host thread
  holds the locker of the isolate, in which it runs the script and the addon's entry points.
  No code of the addons makes the host thread give the locker up.
\<close>

definition loaded :: "(objref \<Rightarrow> jsobject) \<Rightarrow> process" where
  "loaded h = \<lparr>heap = h, persist = None, threads = [], locker = Some Host, calls = []\<rparr>"

text \<open>
  The same state with the locker free, as it would be had the host thread left the isolate.
  No execution of the addons reaches it; it serves to state what the workers would do with
  the locker.
\<close>

definition unlocked :: "process \<Rightarrow> process" where
  "unlocked s = s\<lparr>locker := None\<rparr>"

definition empty_heap :: "objref \<Rightarrow> jsobject" where
  "empty_heap r = Map.empty"

text \<open>The numeric value of property \<open>x\<close> of record \<open>r\<close>.\<close>

definition number_x :: "process \<Rightarrow> objref \<Rightarrow> double" where
  "number_x s r = NumberValue (Get (heap s r) ''x'')"


text \<open>
  A sequence of calls of one thread releases what it acquires when every destruction follows
  a construction of its own, and no construction is outstanding when the thread goes to
  sleep or at the end. The number counts the outstanding constructions.
\<close>

fun released :: "nat \<Rightarrow> call list \<Rightarrow> bool" where
  "released h [] = (h = 0)"
| "released h (c # cs) =
     (if c = LockerCtor then released (Suc h) cs
      else if c = LockerDtor then 0 < h \<and> released (h - 1) cs
      else if c = SleepFor then h = 0 \<and> released h cs
      else released h cs)"






text \<open>At most one worker is between the construction and the destruction of its locker.\<close>

definition mutual_exclusion :: "process \<Rightarrow> bool" where
  "mutual_exclusion s \<longleftrightarrow>
     (\<forall>t \<in> {..<length (threads s)}. \<forall>u \<in> {..<length (threads s)}.
        threads s ! t = InCriticalSection \<and> threads s ! u = InCriticalSection \<longrightarrow> t = u)"

text \<open>The locker is held by exactly the worker that is in its critical section, if any.\<close>

definition token_held :: "process \<Rightarrow> bool" where
  "token_held s \<longleftrightarrow>
     (\<forall>t \<in> {..<length (threads s)}.
        (threads s ! t = InCriticalSection) = (locker s = Some (Worker t)))"

section \<open>Exact sums of integers\<close>

text \<open>
  Integers below \<open>2^53\<close> in magnitude are binary64 values, and a sum of two of them that
  stays below \<open>2^53\<close> is computed without rounding.
\<close>

lemma strip_double: "0 < m \<Longrightarrow> strip (2 * m) e = strip m (e + 1)"
  by (subst strip.simps) simp

lemma strip_shift: "0 < m \<Longrightarrow> strip (m * 2 ^ j) e = strip m (e + int j)"
proof (induction j arbitrary: e)
  case 0
  then show ?case by simp
next
  case (Suc j)
  have "strip (m * 2 ^ Suc j) e = strip (2 * (m * 2 ^ j)) e"
    by (simp add: mult.commute mult.left_commute)
  also have "\<dots> = strip (m * 2 ^ j) (e + 1)"
    using Suc.prems by (intro strip_double) simp
  also have "\<dots> = strip m (e + 1 + int j)"
    using Suc by simp
  finally show ?case by (simp add: ac_simps)
qed

lemma strip_spec:
  "0 < m \<Longrightarrow> strip m e = (m', e') \<Longrightarrow> e \<le> e' \<and> m' * 2 ^ nat (e' - e) = m \<and> odd m'"
proof (induction m e arbitrary: m' e' rule: strip.induct)
  case (1 m e)
  show ?case
  proof (cases "odd m")
    case True
    with "1.prems" show ?thesis by (subst (asm) strip.simps) auto
  next
    case False
    then have ev: "even m" by simp
    with "1.prems" have pos: "0 < m div 2" by (auto elim: evenE)
    from "1.prems" ev have eq: "strip (m div 2) (e + 1) = (m', e')"
      by (subst (asm) strip.simps) auto
    from "1.IH"[OF _ _ pos eq] "1.prems" ev
    have ih: "e + 1 \<le> e' \<and> m' * 2 ^ nat (e' - (e + 1)) = m div 2 \<and> odd m'" by auto
    then have "nat (e' - e) = Suc (nat (e' - (e + 1)))" by linarith
    with ih ev show ?thesis by (auto elim: evenE)
  qed
qed

lemma bitlen_le: "m < 2 ^ k \<Longrightarrow> bitlen m \<le> k"
proof (induction k arbitrary: m)
  case 0
  then show ?case by (simp add: bitlen.simps)
next
  case (Suc k)
  then have "m div 2 < 2 ^ k" by simp
  from Suc.IH[OF this] show ?case by (subst bitlen.simps) simp
qed

lemma round_small:
  assumes "m < 2 ^ 53" "e \<le> 971"
  shows "round_to_double s m e = (case strip m e of (m', e') \<Rightarrow> Finite s m' e')"
proof -
  have b: "bitlen m \<le> 53" using assms(1) by (rule bitlen_le)
  then have k: "bitlen m - 53 = 0" by simp
  from b assms(2) have "\<not> 1024 < int (bitlen m) + e" by linarith
  then show ?thesis by (simp add: round_to_double_def k)
qed

lemma signed_abs: "signed (a < 0) (nat \<bar>a\<bar>) = a"
  by (simp add: signed_def)

lemma double_of_int_small:
  assumes "\<bar>a\<bar> < 2 ^ 53"
  shows "double_of_int a = (case strip (nat \<bar>a\<bar>) 0 of (m, e) \<Rightarrow> Finite (a < 0) m e)"
proof (cases "a = 0")
  case True
  then show ?thesis by (simp add: double_of_int_def strip.simps)
next
  case False
  from assms have "nat \<bar>a\<bar> < 2 ^ 53"
    by (simp add: nat_less_iff)
  then show ?thesis using False by (simp add: double_of_int_def round_small)
qed

lemma add_double_of_int:
  assumes a: "\<bar>a\<bar> < 2 ^ 53" and b: "\<bar>b\<bar> < 2 ^ 53" and ab: "\<bar>a + b\<bar> < 2 ^ 53"
  shows "add (double_of_int a) (double_of_int b) = double_of_int (a + b)"
proof -
  obtain m e where sa: "strip (nat \<bar>a\<bar>) 0 = (m, e)" by fastforce
  obtain n f where sb: "strip (nat \<bar>b\<bar>) 0 = (n, f)" by fastforce
  have da: "double_of_int a = Finite (a < 0) m e"
    using a sa by (simp add: double_of_int_small)
  have db: "double_of_int b = Finite (b < 0) n f"
    using b sb by (simp add: double_of_int_small)
  have va: "0 \<le> e \<and> int m * 2 ^ nat e = \<bar>a\<bar>"
  proof (cases "a = 0")
    case True
    with sa show ?thesis by (simp add: strip.simps)
  next
    case False
    then have "0 < nat \<bar>a\<bar>" by simp
    from strip_spec[OF this sa] have "0 \<le> e" "m * 2 ^ nat e = nat \<bar>a\<bar>" by auto
    then have "int (m * 2 ^ nat e) = \<bar>a\<bar>" by simp
    with \<open>0 \<le> e\<close> show ?thesis by simp
  qed
  have vb: "0 \<le> f \<and> int n * 2 ^ nat f = \<bar>b\<bar>"
  proof (cases "b = 0")
    case True
    with sb show ?thesis by (simp add: strip.simps)
  next
    case False
    then have "0 < nat \<bar>b\<bar>" by simp
    from strip_spec[OF this sb] have "0 \<le> f" "n * 2 ^ nat f = nat \<bar>b\<bar>" by auto
    then have "int (n * 2 ^ nat f) = \<bar>b\<bar>" by simp
    with \<open>0 \<le> f\<close> show ?thesis by simp
  qed
  define g where "g = min e f"
  define z where "z = signed (a < 0) m * 2 ^ nat (e - g) + signed (b < 0) n * 2 ^ nat (f - g)"
  have g0: "0 \<le> g" "g \<le> e" "g \<le> f" using va vb by (auto simp: g_def)
  have pe: "(2::int) ^ nat (e - g) * 2 ^ nat g = 2 ^ nat e"
    using g0 by (simp add: power_add [symmetric] nat_add_distrib [symmetric])
  have pf: "(2::int) ^ nat (f - g) * 2 ^ nat g = 2 ^ nat f"
    using g0 by (simp add: power_add [symmetric] nat_add_distrib [symmetric])
  have sga: "signed (a < 0) m * 2 ^ nat e = a"
    using va by (auto simp: signed_def)
  have sgb: "signed (b < 0) n * 2 ^ nat f = b"
    using vb by (auto simp: signed_def)
  have "z * 2 ^ nat g = signed (a < 0) m * (2 ^ nat (e - g) * 2 ^ nat g)
                      + signed (b < 0) n * (2 ^ nat (f - g) * 2 ^ nat g)"
    by (simp add: z_def algebra_simps)
  then have zv: "z * 2 ^ nat g = a + b"
    by (simp only: pe pf sga sgb)
  have addz: "add (double_of_int a) (double_of_int b) =
      (if z = 0 then Finite (a < 0 \<and> b < 0) 0 0 else round_to_double (z < 0) (nat \<bar>z\<bar>) g)"
    by (simp add: da db z_def g_def Let_def)
  show ?thesis
  proof (cases "z = 0")
    case True
    with zv have "a + b = 0" by simp
    then have "\<not> (a < 0 \<and> b < 0)" by linarith
    with True have "add (double_of_int a) (double_of_int b) = Finite False 0 0"
      by (simp only: addz if_True simp_thms)
    moreover have "double_of_int (a + b) = Finite False 0 0"
      using \<open>a + b = 0\<close> by (simp add: double_of_int_def)
    ultimately show ?thesis by simp
  next
    case False
    with zv have nz: "a + b \<noteq> 0" by auto
    have sgn: "(z < 0) = (a + b < 0)"
      using zv by (metis mult_less_0_iff not_less zero_less_numeral zero_less_power less_imp_le)
    have absz: "nat \<bar>z\<bar> * 2 ^ nat g = nat \<bar>a + b\<bar>"
    proof -
      have "\<bar>z * 2 ^ nat g\<bar> = \<bar>a + b\<bar>"
        using zv by simp
      then have "\<bar>z\<bar> * 2 ^ nat g = \<bar>a + b\<bar>"
        by (simp add: abs_mult)
      then have "nat (\<bar>z\<bar> * 2 ^ nat g) = nat \<bar>a + b\<bar>" by simp
      then show ?thesis by (simp add: nat_mult_distrib nat_power_eq)
    qed
    have zpos: "0 < nat \<bar>z\<bar>" using False by simp
    have abn: "nat \<bar>a + b\<bar> < 2 ^ 53"
      using ab by (simp add: nat_less_iff)
    have "nat \<bar>z\<bar> \<le> nat \<bar>z\<bar> * 2 ^ nat g" by simp
    then have "nat \<bar>z\<bar> \<le> nat \<bar>a + b\<bar>" by (simp only: absz)
    then have zsmall: "nat \<bar>z\<bar> < 2 ^ 53" using abn by (rule le_less_trans)
    have "(2::nat) ^ nat g \<le> nat \<bar>z\<bar> * 2 ^ nat g" using zpos by simp
    then have "(2::nat) ^ nat g \<le> nat \<bar>a + b\<bar>" by (simp only: absz)
    then have "(2::nat) ^ nat g < 2 ^ 53" using abn by (rule le_less_trans)
    then have "nat g < 53" by (simp only: power_strict_increasing_iff rel_simps)
    then have gle: "g \<le> 971" by linarith
    have "strip (nat \<bar>a + b\<bar>) 0 = strip (nat \<bar>z\<bar>) (0 + int (nat g))"
      unfolding absz [symmetric] using zpos by (rule strip_shift)
    then have st: "strip (nat \<bar>a + b\<bar>) 0 = strip (nat \<bar>z\<bar>) g"
      using g0 by simp
    have "add (double_of_int a) (double_of_int b) =
        (case strip (nat \<bar>z\<bar>) g of (m', e') \<Rightarrow> Finite (z < 0) m' e')"
      using False by (simp only: addz if_False round_small [OF zsmall gle])
    moreover have "double_of_int (a + b) =
        (case strip (nat \<bar>a + b\<bar>) 0 of (m', e') \<Rightarrow> Finite (a + b < 0) m' e')"
      using ab by (rule double_of_int_small)
    ultimately show ?thesis by (simp only: st sgn)
  qed
qed

lemma value_of_double_of_int:
  assumes "\<bar>n\<bar> < 2 ^ 53"
  shows "value_of (double_of_int n) = Some (of_int n)"
proof (cases "n = 0")
  case True
  then show ?thesis by (simp add: double_of_int_def signed_def)
next
  case False
  obtain m e where st: "strip (nat \<bar>n\<bar>) 0 = (m, e)" by fastforce
  from False have "0 < nat \<bar>n\<bar>" by simp
  from strip_spec [OF this st] have e: "0 \<le> e" and m: "m * 2 ^ nat e = nat \<bar>n\<bar>" by auto
  from m have "int (m * 2 ^ nat e) = \<bar>n\<bar>" by simp
  then have "int m * 2 ^ nat e = \<bar>n\<bar>" by simp
  then have "signed (n < 0) m * 2 ^ nat e = n" by (auto simp: signed_def)
  then have "(of_int (signed (n < 0) m * 2 ^ nat e) :: rat) = of_int n" by simp
  then have "(of_int (signed (n < 0) m) :: rat) * 2 ^ nat e = of_int n" by simp
  with e show ?thesis
    using assms st by (simp add: double_of_int_small)
qed

section \<open>The synchronous entry point, step by step\<close>

lemma funpow_add_int:
  "\<bar>a\<bar> + 42 * int k < 2 ^ 53 \<Longrightarrow>
   ((\<lambda>d. add d (double_of_int 42)) ^^ k) (double_of_int a) = double_of_int (a + 42 * int k)"
proof (induction k)
  case 0
  then show ?case by simp
next
  case (Suc k)
  then have ih: "((\<lambda>d. add d (double_of_int 42)) ^^ k) (double_of_int a) = double_of_int (a + 42 * int k)"
    by simp
  have 1: "\<bar>a + 42 * int k\<bar> < 2 ^ 53" using Suc.prems by simp
  have 2: "\<bar>42::int\<bar> < 2 ^ 53" by simp
  have 3: "\<bar>a + 42 * int k + 42\<bar> < 2 ^ 53" using Suc.prems by simp
  show ?case
    by (simp only: funpow.simps o_apply ih add_double_of_int [OF 1 2 3]) (simp add: algebra_simps)
qed

lemma Mutate_registered:
  "persist s = Some r \<Longrightarrow>
   Mutate s = Inr (s\<lparr>heap := (heap s)(r := (heap s r)(''x'' \<mapsto> Number (add (number_x s r) (double_of_int 42))))\<rparr>)"
  by (simp add: Mutate_def Local_New_def Set_def Number_New_def number_x_def Let_def)

lemma Mutate_unregistered: "persist s = None \<Longrightarrow> Mutate s = Inl EmptyHandle"
  by (simp add: Mutate_def Local_New_def)

lemma number_x_upd [simp]:
  "number_x (s\<lparr>heap := (heap s)(r := (heap s r)(''x'' \<mapsto> Number d))\<rparr>) r = d"
  by (simp add: number_x_def Get_def)

lemma repeat_Mutate:
  "persist s = Some r \<Longrightarrow>
   \<exists>s'. repeat k Mutate s = Inr s' \<and> persist s' = Some r
      \<and> (\<forall>r'. r' \<noteq> r \<longrightarrow> heap s' r' = heap s r')
      \<and> (\<forall>key. key \<noteq> ''x'' \<longrightarrow> heap s' r key = heap s r key)
      \<and> (0 < k \<longrightarrow> heap s' r ''x'' = Some (Number (number_x s' r)))
      \<and> number_x s' r = ((\<lambda>d. add d (double_of_int 42)) ^^ k) (number_x s r)
      \<and> threads s' = threads s \<and> locker s' = locker s \<and> calls s' = calls s"
proof (induction k arbitrary: s)
  case 0
  then show ?case by simp
next
  case (Suc k)
  let ?s1 = "s\<lparr>heap := (heap s)(r := (heap s r)(''x'' \<mapsto> Number (add (number_x s r) (double_of_int 42))))\<rparr>"
  have m: "Mutate s = Inr ?s1" using Suc.prems by (rule Mutate_registered)
  have p1: "persist ?s1 = Some r" using Suc.prems by simp
  from Suc.IH[OF p1] obtain s' where
    r: "repeat k Mutate ?s1 = Inr s'" and p: "persist s' = Some r"
    and f1: "\<forall>r'. r' \<noteq> r \<longrightarrow> heap s' r' = heap ?s1 r'"
    and f2: "\<forall>key. key \<noteq> ''x'' \<longrightarrow> heap s' r key = heap ?s1 r key"
    and f3: "0 < k \<longrightarrow> heap s' r ''x'' = Some (Number (number_x s' r))"
    and n: "number_x s' r = ((\<lambda>d. add d (double_of_int 42)) ^^ k) (number_x ?s1 r)"
    and o: "threads s' = threads ?s1" "locker s' = locker ?s1" "calls s' = calls ?s1"
    by blast
  have "repeat (Suc k) Mutate s = Inr s'" by (simp add: m r)
  moreover have "number_x s' r = ((\<lambda>d. add d (double_of_int 42)) ^^ Suc k) (number_x s r)"
    by (simp only: n number_x_upd funpow_Suc_right o_apply)
  moreover have "heap s' r ''x'' = Some (Number (number_x s' r))"
  proof (cases k)
    case 0
    with r have "s' = ?s1" by simp
    then show ?thesis by simp
  next
    case (Suc j)
    with f3 show ?thesis by simp
  qed
  ultimately show ?case using p f1 f2 o by simp
qed

section \<open>The workers, step by step\<close>


lemma mutate_v2_step_not_locked:
  "t < length (threads s) \<Longrightarrow> threads s ! t \<noteq> Sleeping \<Longrightarrow> locker s \<noteq> Some (Worker t) \<Longrightarrow>
   mutate_v2_step t s = Inl NotLocked"
  by (simp add: mutate_v2_step_def)





lemma step_asleep:
  "t < length (threads s) \<Longrightarrow> threads s ! t = Sleeping \<Longrightarrow>
   mutate_v3_step t s =
     Inr (s\<lparr>threads := (threads s)[t := AcquiringLock],
            calls := calls s @ [(t, SleepFor), (t, Cerr)]\<rparr>)"
  by (simp add: mutate_v3_step_def record_calls_def)

lemma step_acquire:
  "t < length (threads s) \<Longrightarrow> threads s ! t = AcquiringLock \<Longrightarrow> locker s = None \<Longrightarrow>
   mutate_v3_step t s =
     Inr (s\<lparr>threads := (threads s)[t := InCriticalSection], locker := Some (Worker t),
            calls := calls s @ [(t, LockerCtor)]\<rparr>)"
  by (simp add: mutate_v3_step_def record_calls_def)

lemma step_blocked:
  "t < length (threads s) \<Longrightarrow> threads s ! t = AcquiringLock \<Longrightarrow> locker s \<noteq> None \<Longrightarrow>
   mutate_v3_step t s = Inl Blocked"
  by (simp add: mutate_v3_step_def)

lemma step_critical:
  "t < length (threads s) \<Longrightarrow> threads s ! t = InCriticalSection \<Longrightarrow> persist s = Some r \<Longrightarrow>
   mutate_v3_step t s =
     Inr (s\<lparr>heap := (heap s)(r := (heap s r)(''x'' \<mapsto> Number (add (number_x s r) (double_of_int 42)))),
            threads := (threads s)[t := Sleeping], locker := None,
            calls := calls s @ map (Pair t)
              [IsolateEnter, Cerr, HandleScopeCtor, StringNewFromUtf8, LocalNew, ValueToObject,
               ObjectGet, ValueNumberValue, NumberNew, ObjectSet, HandleScopeDtor, LockerDtor]\<rparr>)"
  by (simp add: mutate_v3_step_def record_calls_def Local_New_def Set_def Number_New_def number_x_def Let_def)

lemma step_critical_unregistered:
  "t < length (threads s) \<Longrightarrow> threads s ! t = InCriticalSection \<Longrightarrow> persist s = None \<Longrightarrow>
   mutate_v3_step t s = Inl EmptyHandle"
  by (simp add: mutate_v3_step_def Local_New_def)

lemma wake_registered:
  assumes "t < length (threads s)" "threads s ! t = Sleeping" "locker s = None" "persist s = Some r"
  shows "mutate_v3_wake t s =
     Inr (s\<lparr>heap := (heap s)(r := (heap s r)(''x'' \<mapsto> Number (add (number_x s r) (double_of_int 42)))),
            calls := calls s @ map (Pair t)
              [SleepFor, Cerr, LockerCtor,
               IsolateEnter, Cerr, HandleScopeCtor, StringNewFromUtf8, LocalNew, ValueToObject,
               ObjectGet, ValueNumberValue, NumberNew, ObjectSet, HandleScopeDtor, LockerDtor]\<rparr>)"
proof -
  have th: "(threads s)[t := Sleeping] = threads s"
    using assms by (metis list_update_id)
  show ?thesis
    using assms
    by (simp add: mutate_v3_wake_def and_then_def mutate_v3_step_def record_calls_def Local_New_def
        Set_def Number_New_def number_x_def Let_def th)
qed

lemma wakes_registered:
  assumes "t < length (threads s)" "threads s ! t = Sleeping" "locker s = None" "persist s = Some r"
  shows "\<exists>s'. mutate_v3 n t s = Inr s' \<and> persist s' = Some r
      \<and> threads s' = threads s \<and> locker s' = None
      \<and> (\<forall>r'. r' \<noteq> r \<longrightarrow> heap s' r' = heap s r')
      \<and> (\<forall>key. key \<noteq> ''x'' \<longrightarrow> heap s' r key = heap s r key)
      \<and> number_x s' r = ((\<lambda>d. add d (double_of_int 42)) ^^ n) (number_x s r)
      \<and> (0 < n \<longrightarrow> heap s' r ''x'' = Some (Number (number_x s' r)))
      \<and> calls s' = calls s @ map (Pair t) (concat (replicate n
            [SleepFor, Cerr, LockerCtor,
             IsolateEnter, Cerr, HandleScopeCtor, StringNewFromUtf8, LocalNew, ValueToObject,
             ObjectGet, ValueNumberValue, NumberNew, ObjectSet, HandleScopeDtor, LockerDtor]))"
  using assms
proof (induction n arbitrary: s)
  case 0
  then show ?case by (simp add: mutate_v3_def)
next
  case (Suc n)
  let ?w = "[SleepFor, Cerr, LockerCtor,
             IsolateEnter, Cerr, HandleScopeCtor, StringNewFromUtf8, LocalNew, ValueToObject,
             ObjectGet, ValueNumberValue, NumberNew, ObjectSet, HandleScopeDtor, LockerDtor]"
  let ?s1 = "s\<lparr>heap := (heap s)(r := (heap s r)(''x'' \<mapsto> Number (add (number_x s r) (double_of_int 42)))),
            calls := calls s @ map (Pair t) ?w\<rparr>"
  have w: "mutate_v3_wake t s = Inr ?s1"
    using Suc.prems by (rule wake_registered)
  have a: "t < length (threads ?s1)" "threads ?s1 ! t = Sleeping" "locker ?s1 = None"
    "persist ?s1 = Some r"
    using Suc.prems by simp_all
  from Suc.IH[OF a] obtain s' where
    r: "mutate_v3 n t ?s1 = Inr s'" and p: "persist s' = Some r"
    and th: "threads s' = threads ?s1" and l: "locker s' = None"
    and f1: "\<forall>r'. r' \<noteq> r \<longrightarrow> heap s' r' = heap ?s1 r'"
    and f2: "\<forall>key. key \<noteq> ''x'' \<longrightarrow> heap s' r key = heap ?s1 r key"
    and n: "number_x s' r = ((\<lambda>d. add d (double_of_int 42)) ^^ n) (number_x ?s1 r)"
    and f3: "0 < n \<longrightarrow> heap s' r ''x'' = Some (Number (number_x s' r))"
    and c: "calls s' = calls ?s1 @ map (Pair t) (concat (replicate n ?w))"
    by blast
  have nx: "number_x ?s1 r = add (number_x s r) (double_of_int 42)"
    by (simp add: number_x_def Get_def)
  have "mutate_v3 (Suc n) t s = Inr s'"
    using r by (simp add: mutate_v3_def w)
  moreover have "number_x s' r = ((\<lambda>d. add d (double_of_int 42)) ^^ Suc n) (number_x s r)"
    by (simp only: n nx funpow_Suc_right o_apply)
  moreover have "calls s' = calls s @ map (Pair t) (concat (replicate (Suc n) ?w))"
    using c by simp
  moreover have "heap s' r ''x'' = Some (Number (number_x s' r))"
  proof (cases n)
    case 0
    with r have "s' = ?s1" by (simp add: mutate_v3_def)
    then show ?thesis by (simp add: number_x_def Get_def)
  next
    case (Suc j)
    with f3 show ?thesis by simp
  qed
  ultimately show ?case using p th l f1 f2 by simp
qed

lemma double_of_int_0: "double_of_int 0 = Finite False 0 0"
  by (simp add: double_of_int_def)

lemma number_x_cong:
  "heap (s2::process) r ''x'' = heap (s::process) r ''x'' \<Longrightarrow> number_x s2 r = number_x s r"
  by (simp add: number_x_def Get_def)

lemma count_list_concat_replicate:
  "count_list (concat (replicate n w)) c = n * count_list w c"
  by (induction n) simp_all

lemma released_wakes:
  "released 0 (concat (replicate n
     [SleepFor, Cerr, LockerCtor,
      IsolateEnter, Cerr, HandleScopeCtor, StringNewFromUtf8, LocalNew, ValueToObject,
      ObjectGet, ValueNumberValue, NumberNew, ObjectSet, HandleScopeDtor, LockerDtor]))"
  by (induction n) simp_all

lemma wake_as_run:
  "mutate_v3_wake t s = run_v3 [WorkerStep t, WorkerStep t, WorkerStep t] s"
  by (simp add: mutate_v3_wake_def and_then_def split: sum.splits)

lemma token_held_iff:
  "token_held s \<longleftrightarrow>
     (\<forall>t < length (threads s). (threads s ! t = InCriticalSection) = (locker s = Some (Worker t)))"
  by (simp add: token_held_def Ball_def)

lemma mutual_exclusion_iff:
  "mutual_exclusion s \<longleftrightarrow>
     (\<forall>t < length (threads s). \<forall>u < length (threads s).
        threads s ! t = InCriticalSection \<and> threads s ! u = InCriticalSection \<longrightarrow> t = u)"
  by (simp add: mutual_exclusion_def Ball_def)

lemma token_Start:
  assumes "token_held s" and "\<forall>t. locker s = Some (Worker t) \<longrightarrow> t < length (threads s)"
  shows "token_held (Start_v3 s a) \<and>
         (\<forall>t. locker (Start_v3 s a) = Some (Worker t) \<longrightarrow> t < length (threads (Start_v3 s a)))"
proof -
  have "(threads s @ [Sleeping]) ! t = InCriticalSection \<longleftrightarrow> locker s = Some (Worker t)"
    if "t < Suc (length (threads s))" for t
  proof (cases "t < length (threads s)")
    case True
    with assms(1) show ?thesis by (simp add: token_held_iff nth_append)
  next
    case False
    with that have "t = length (threads s)" by simp
    with assms(2) show ?thesis by auto
  qed
  moreover have "\<forall>t. locker s = Some (Worker t) \<longrightarrow> t < Suc (length (threads s))"
    using assms(2) by (simp add: less_Suc_eq)
  ultimately show ?thesis by (simp add: token_held_iff Start_v3_def)
qed

lemma token_step:
  assumes "mutate_v3_step t s = Inr s'"
    and "token_held s" and "\<forall>u. locker s = Some (Worker u) \<longrightarrow> u < length (threads s)"
  shows "token_held s' \<and> (\<forall>u. locker s' = Some (Worker u) \<longrightarrow> u < length (threads s'))"
proof -
  from assms(1) have t: "t < length (threads s)"
    by (simp add: mutate_v3_step_def split: if_splits)
  show ?thesis
  proof (cases "threads s ! t")
    case Sleeping
    with t assms(1) have s': "s' = s\<lparr>threads := (threads s)[t := AcquiringLock],
            calls := calls s @ [(t, SleepFor), (t, Cerr)]\<rparr>"
      by (simp add: step_asleep)
    from assms(2) t Sleeping have "locker s \<noteq> Some (Worker t)" by (auto simp: token_held_iff)
    with assms(2,3) t show ?thesis
      by (auto simp: s' token_held_iff nth_list_update)
  next
    case AcquiringLock
    with t assms(1) have l: "locker s = None"
      by (simp add: mutate_v3_step_def split: if_splits)
    with t assms(1) AcquiringLock have s': "s' = s\<lparr>threads := (threads s)[t := InCriticalSection],
            locker := Some (Worker t), calls := calls s @ [(t, LockerCtor)]\<rparr>"
      by (simp add: step_acquire)
    from assms(2) l t show ?thesis
      by (auto simp: s' token_held_iff nth_list_update)
  next
    case InCriticalSection
    with t assms(1) obtain r where p: "persist s = Some r"
      by (cases "persist s") (simp_all add: step_critical_unregistered)
    from assms(2) t InCriticalSection have l: "locker s = Some (Worker t)" by (simp add: token_held_iff)
    from step_critical [OF t InCriticalSection p] assms(1)
    have th: "threads s' = (threads s)[t := Sleeping]" and l': "locker s' = None"
      by auto
    from assms(2) l t show ?thesis
      by (auto simp: th l' token_held_iff nth_list_update)
  qed
qed

lemma token_run:
  "run_v3 as s = Inr s' \<Longrightarrow>
   token_held s \<Longrightarrow> \<forall>u. locker s = Some (Worker u) \<longrightarrow> u < length (threads s) \<Longrightarrow>
   token_held s' \<and> (\<forall>u. locker s' = Some (Worker u) \<longrightarrow> u < length (threads s'))"
proof (induction as arbitrary: s)
  case Nil
  then show ?case by simp
next
  case (Cons a as)
  from Cons.prems(1) obtain s1 where
    a: "perform_v3 a s = Inr s1" and r: "run_v3 as s1 = Inr s'"
    by (auto split: sum.splits)
  have "token_held s1 \<and> (\<forall>u. locker s1 = Some (Worker u) \<longrightarrow> u < length (threads s1))"
  proof (cases a)
    case (HostStart arg0)
    with a have "s1 = Start_v3 s arg0" by simp
    with token_Start [OF Cons.prems(2,3), of arg0] show ?thesis by simp
  next
    case (WorkerStep t)
    with a have "mutate_v3_step t s = Inr s1" by simp
    then show ?thesis using Cons.prems(2,3) by (rule token_step)
  qed
  with Cons.IH [OF r] show ?case by simp
qed

lemma token_mutual_exclusion: "token_held s \<Longrightarrow> mutual_exclusion s"
  by (auto simp: token_held_iff mutual_exclusion_iff)

lemma step_v3_host:
  assumes "mutate_v3_step t s = Inr s'" and "locker s = Some Host" and "token_held s"
  shows "heap s' = heap s \<and> locker s' = Some Host"
proof -
  from assms(1) have t: "t < length (threads s)"
    by (simp add: mutate_v3_step_def split: if_splits)
  show ?thesis
  proof (cases "threads s ! t")
    case Sleeping
    with t assms(1,2) show ?thesis by (auto simp: step_asleep)
  next
    case AcquiringLock
    with t assms(2) have "mutate_v3_step t s = Inl Blocked" by (simp add: step_blocked)
    with assms(1) show ?thesis by simp
  next
    case InCriticalSection
    with t assms(3) have "locker s = Some (Worker t)" by (simp add: token_held_iff)
    with assms(2) show ?thesis by simp
  qed
qed

lemma run_v3_host:
  "run_v3 as s = Inr s' \<Longrightarrow> locker s = Some Host \<Longrightarrow> token_held s \<Longrightarrow>
   heap s' = heap s \<and> locker s' = Some Host"
proof (induction as arbitrary: s)
  case Nil
  then show ?case by simp
next
  case (Cons a as)
  from Cons.prems(1) obtain s1 where
    a: "perform_v3 a s = Inr s1" and r: "run_v3 as s1 = Inr s'"
    by (auto split: sum.splits)
  have b: "\<forall>u. locker s = Some (Worker u) \<longrightarrow> u < length (threads s)"
    using Cons.prems(2) by simp
  have "run_v3 [a] s = Inr s1" using a by simp
  from token_run [OF this Cons.prems(3) b] have th: "token_held s1" by simp
  have "heap s1 = heap s \<and> locker s1 = Some Host"
  proof (cases a)
    case (HostStart arg0)
    with a Cons.prems(2) show ?thesis by (auto simp: Start_v3_def)
  next
    case (WorkerStep t)
    with a have "mutate_v3_step t s = Inr s1" by simp
    from step_v3_host [OF this Cons.prems(2,3)] show ?thesis .
  qed
  with Cons.IH [OF r _ th] show ?case by simp
qed









section \<open>Sums that round\<close>

lemma double_100000000000000000: "double_of_int 100000000000000000 = Finite False 762939453125 17"
  by (simp add: double_of_int_def round_to_double_def bitlen.simps strip.simps)

lemma double_42: "double_of_int 42 = Finite False 21 1"
  by (simp add: double_of_int_def round_to_double_def bitlen.simps strip.simps)

lemma double_84: "double_of_int 84 = Finite False 21 2"
  by (simp add: double_of_int_def round_to_double_def bitlen.simps strip.simps)

lemma add_1e17_42: "add (Finite False 762939453125 17) (Finite False 21 1) = Finite False 6250000000000003 4"
  by (simp add: round_to_double_def bitlen.simps strip.simps signed_def Let_def)

lemma add_1e17_42_42: "add (Finite False 6250000000000003 4) (Finite False 21 1) = Finite False 3125000000000003 5"
  by (simp add: round_to_double_def bitlen.simps strip.simps signed_def Let_def)

lemma add_1e17_84: "add (Finite False 762939453125 17) (Finite False 21 2) = Finite False 6250000000000005 4"
  by (simp add: round_to_double_def bitlen.simps strip.simps signed_def Let_def)

section \<open>Single-thread correctness (mutate01)\<close>

text \<open>
  C1 as stated fails where the sum is rounded. With \<open>x = 10^17\<close>, two calls of
  \<^verbatim>\<open>mutate\<close> leave \<open>x = 10^17 + 96\<close>: each addition rounds to a multiple of 16. The exact
  sum is \<open>10^17 + 84\<close>, and the single double addition \<open>10^17 + 84\<close> gives \<open>10^17 + 80\<close>.
\<close>

theorem C1_counterexample:
  "(case repeat 2 Mutate
           (Setup (loaded (empty_heap(0 := [''x'' \<mapsto> Number (double_of_int 100000000000000000)])))
              (Object 0)) of
      Inl e \<Rightarrow> None
    | Inr s' \<Rightarrow> value_of (number_x s' 0)) = Some 100000000000000096
   \<and> value_of (double_of_int 100000000000000000) = Some 100000000000000000
   \<and> (100000000000000096 :: rat) \<noteq> 100000000000000000 + 42 * 2
   \<and> value_of (add (double_of_int 100000000000000000) (double_of_int (42 * 2)))
        = Some 100000000000000080"
proof -
  let ?s = "Setup (loaded (empty_heap(0 := [''x'' \<mapsto> Number (double_of_int 100000000000000000)])))
              (Object 0)"
  have p: "persist ?s = Some 0" by (simp add: Setup_def)
  have x0: "number_x ?s 0 = Finite False 762939453125 17"
    by (simp add: Setup_def loaded_def number_x_def Get_def double_100000000000000000)
  from repeat_Mutate [OF p, of 2] obtain s' where
    r: "repeat 2 Mutate ?s = Inr s'"
    and n: "number_x s' 0 = ((\<lambda>d. add d (double_of_int 42)) ^^ 2) (number_x ?s 0)"
    by blast
  have two: "(2::nat) = Suc (Suc 0)" by simp
  have "((\<lambda>d. add d (double_of_int 42)) ^^ 2) (Finite False 762939453125 17)
      = add (add (Finite False 762939453125 17) (double_of_int 42)) (double_of_int 42)"
    by (simp only: two funpow.simps o_apply id_apply)
  then have "number_x s' 0 = Finite False 3125000000000003 5"
    by (simp only: n x0 double_42 add_1e17_42 add_1e17_42_42)
  then have 1: "(case repeat 2 Mutate ?s of Inl e \<Rightarrow> None | Inr s' \<Rightarrow> value_of (number_x s' 0))
      = Some 100000000000000096"
    by (simp add: r signed_def)
  have 2: "value_of (double_of_int 100000000000000000) = Some 100000000000000000"
    by (simp add: double_100000000000000000 signed_def)
  have 3: "(100000000000000096 :: rat) \<noteq> 100000000000000000 + 42 * 2" by simp
  have "(42::int) * 2 = 84" by simp
  then have "add (double_of_int 100000000000000000) (double_of_int (42 * 2)) = Finite False 6250000000000005 4"
    by (simp only: double_100000000000000000 double_84 add_1e17_84)
  then have 4: "value_of (add (double_of_int 100000000000000000) (double_of_int (42 * 2)))
        = Some 100000000000000080"
    by (simp add: signed_def)
  from 1 2 3 4 show ?thesis by blast
qed

text \<open>
  C1 (amended). After \<^verbatim>\<open>setup(r)\<close>, \<open>k\<close> calls of \<^verbatim>\<open>mutate\<close> return normally and leave the
  numeric value of \<open>r.x\<close> at the result of \<open>k\<close> successive double additions of 42 to its
  initial numeric value. When the initial value is an integer \<open>n\<close> with
  \<open>|n| + 42 k < 2^53\<close>, no addition rounds and the result is \<open>n + 42 k\<close>.
\<close>

theorem C1_single_thread_sum:
  "\<exists>s'. repeat k Mutate (Setup s (Object r)) = Inr s'
     \<and> number_x s' r = ((\<lambda>d. add d (double_of_int 42)) ^^ k) (number_x s r)
     \<and> (0 < k \<longrightarrow> heap s' r ''x'' = Some (Number (number_x s' r)))
     \<and> (number_x s r = double_of_int n \<and> \<bar>n\<bar> + 42 * int k < 2 ^ 53
          \<longrightarrow> number_x s' r = double_of_int (n + 42 * int k)
            \<and> value_of (number_x s' r) = Some (of_int n + 42 * of_nat k))"
proof -
  have p: "persist (Setup s (Object r)) = Some r" by (simp add: Setup_def)
  have x: "number_x (Setup s (Object r)) r = number_x s r"
    by (simp add: Setup_def number_x_def)
  from repeat_Mutate [OF p, of k] obtain s' where
    "repeat k Mutate (Setup s (Object r)) = Inr s'"
    "number_x s' r = ((\<lambda>d. add d (double_of_int 42)) ^^ k) (number_x s r)"
    "0 < k \<longrightarrow> heap s' r ''x'' = Some (Number (number_x s' r))"
    unfolding x by blast
  moreover have "number_x s' r = double_of_int (n + 42 * int k)
      \<and> value_of (number_x s' r) = Some (of_int n + 42 * of_nat k)"
    if "number_x s' r = ((\<lambda>d. add d (double_of_int 42)) ^^ k) (number_x s r)"
      and "number_x s r = double_of_int n \<and> \<bar>n\<bar> + 42 * int k < 2 ^ 53" for s'
  proof -
    from that have e: "number_x s' r = double_of_int (n + 42 * int k)"
      by (simp add: funpow_add_int)
    from that(2) have "\<bar>n\<bar> + 42 * int k < 2 ^ 53" by (rule conjunct2)
    then have "\<bar>n + 42 * int k\<bar> < 2 ^ 53" by simp
    then have "value_of (double_of_int (n + 42 * int k)) = Some (of_int (n + 42 * int k))"
      by (rule value_of_double_of_int)
    with e show ?thesis by simp
  qed
  ultimately show ?thesis by blast
qed

theorem C1_single_thread_sum_witness:
  "number_x (loaded (empty_heap(0 := [''x'' \<mapsto> Number (double_of_int 1)]))) 0 = double_of_int 1
   \<and> \<bar>1::int\<bar> + 42 * int 2 < 2 ^ 53
   \<and> (\<exists>s'. repeat 2 Mutate
          (Setup (loaded (empty_heap(0 := [''x'' \<mapsto> Number (double_of_int 1)]))) (Object 0)) = Inr s'
        \<and> number_x s' 0 = double_of_int 85
        \<and> heap s' 0 ''x'' = Some (Number (double_of_int 85))
        \<and> value_of (number_x s' 0) = Some 85)"
proof -
  let ?s = "loaded (empty_heap(0 := [''x'' \<mapsto> Number (double_of_int 1)]))"
  have h1: "number_x ?s 0 = double_of_int 1"
    by (simp add: loaded_def number_x_def Get_def)
  have h2: "\<bar>1::int\<bar> + 42 * int 2 < 2 ^ 53" by simp
  from C1_single_thread_sum [of 2 ?s 0 1] h1 h2 show ?thesis by auto
qed

section \<open>Serialized background correctness (mutate03)\<close>

text \<open>
  C2 does not hold of the process. \<^verbatim>\<open>start\<close> runs on the host thread, which holds the
  locker and never gives it up. The worker that \<^verbatim>\<open>start(r)\<close> detaches wakes, prints that it
  tries to enter, and blocks in the constructor of its \<^verbatim>\<open>Locker\<close>: its first wake never
  completes, for no number of wakes asked. In every execution that follows \<^verbatim>\<open>start(r)\<close>,
  whatever the host and the workers do, the heap is as it was: \<open>r.x\<close> stays at 0.
\<close>

theorem C2_worker_blocked:
  "mutate_v3 (Suc n) 0 (Start_v3 (loaded h) (Object r)) = Inl Blocked
   \<and> (run_v3 as (Start_v3 (loaded h) (Object r)) = Inr s \<longrightarrow> heap s = h \<and> locker s = Some Host)"
proof (rule conjI)
  let ?s0 = "Start_v3 (loaded h) (Object r)"
  have t: "0 < length (threads ?s0)" "threads ?s0 ! 0 = Sleeping"
    by (simp_all add: Start_v3_def loaded_def)
  let ?s1 = "?s0\<lparr>threads := (threads ?s0)[0 := AcquiringLock],
            calls := calls ?s0 @ [(0, SleepFor), (0, Cerr)]\<rparr>"
  have 1: "mutate_v3_step 0 ?s0 = Inr ?s1" using t by (rule step_asleep)
  have "0 < length (threads ?s1)" "threads ?s1 ! 0 = AcquiringLock" "locker ?s1 \<noteq> None"
    by (simp_all add: Start_v3_def loaded_def)
  then have 2: "mutate_v3_step 0 ?s1 = Inl Blocked" by (rule step_blocked)
  have "mutate_v3_wake 0 ?s0 = Inl Blocked"
    by (simp add: mutate_v3_wake_def and_then_def 1 2)
  then show "mutate_v3 (Suc n) 0 ?s0 = Inl Blocked"
    by (simp add: mutate_v3_def)
next
  show "run_v3 as (Start_v3 (loaded h) (Object r)) = Inr s \<longrightarrow> heap s = h \<and> locker s = Some Host"
  proof (rule impI)
    let ?s0 = "Start_v3 (loaded h) (Object r)"
    assume r: "run_v3 as ?s0 = Inr s"
    have l: "locker ?s0 = Some Host" and th: "token_held ?s0" and h: "heap ?s0 = h"
      by (simp_all add: Start_v3_def loaded_def token_held_iff)
    from run_v3_host [OF r l th] h show "heap s = h \<and> locker s = Some Host" by simp
  qed
qed

theorem C2_worker_blocked_witness:
  "mutate_v3 1 0
     (Start_v3 (loaded (empty_heap(0 := [''x'' \<mapsto> Number (double_of_int 0)]))) (Object 0))
     = Inl Blocked
   \<and> mutate_v3 10 0
     (Start_v3 (loaded (empty_heap(0 := [''x'' \<mapsto> Number (double_of_int 0)]))) (Object 0))
     = Inl Blocked
   \<and> mutate_v3 100 0
     (Start_v3 (loaded (empty_heap(0 := [''x'' \<mapsto> Number (double_of_int 0)]))) (Object 0))
     = Inl Blocked
   \<and> run_v3 [WorkerStep 0]
     (Start_v3 (loaded (empty_heap(0 := [''x'' \<mapsto> Number (double_of_int 0)]))) (Object 0))
     = Inr \<lparr>heap = empty_heap(0 := [''x'' \<mapsto> Number (double_of_int 0)]), persist = Some 0,
            threads = [AcquiringLock], locker = Some Host,
            calls = [(0, SleepFor), (0, Cerr)]\<rparr>
   \<and> heap \<lparr>heap = empty_heap(0 := [''x'' \<mapsto> Number (double_of_int 0)]), persist = Some 0,
            threads = [AcquiringLock], locker = Some Host,
            calls = [(0, SleepFor), (0, Cerr)]\<rparr> 0 ''x'' = Some (Number (double_of_int 0))
   \<and> double_of_int 0 \<noteq> double_of_int 42"
proof -
  let ?h = "empty_heap(0 := [''x'' \<mapsto> Number (double_of_int 0)])"
  let ?s1 = "\<lparr>heap = ?h, persist = Some 0, threads = [AcquiringLock], locker = Some Host,
            calls = [(0, SleepFor), (0, Cerr)]\<rparr>"
  have e: "(1::nat) = Suc 0" "(10::nat) = Suc 9" "(100::nat) = Suc 99" by simp_all
  have r: "run_v3 [WorkerStep 0] (Start_v3 (loaded ?h) (Object 0)) = Inr ?s1"
    by (simp add: Start_v3_def loaded_def mutate_v3_step_def record_calls_def)
  have b1: "mutate_v3 1 0 (Start_v3 (loaded ?h) (Object 0)) = Inl Blocked"
    unfolding e(1) using C2_worker_blocked [of 0 ?h 0, THEN conjunct1] .
  have b2: "mutate_v3 10 0 (Start_v3 (loaded ?h) (Object 0)) = Inl Blocked"
    unfolding e(2) using C2_worker_blocked [of 9 ?h 0, THEN conjunct1] .
  have b3: "mutate_v3 100 0 (Start_v3 (loaded ?h) (Object 0)) = Inl Blocked"
    unfolding e(3) using C2_worker_blocked [of 99 ?h 0, THEN conjunct1] .
  from C2_worker_blocked [of 0 ?h 0 "[WorkerStep 0]" ?s1, THEN conjunct2, THEN mp, OF r]
  have h: "heap ?s1 = ?h" by simp
  then have x: "heap ?s1 0 ''x'' = Some (Number (double_of_int 0))" by simp
  have d: "double_of_int 0 \<noteq> double_of_int 42"
    by (simp add: double_42 double_of_int_0)
  from b1 b2 b3 r x d show ?thesis by (intro conjI)
qed

section \<open>A record without the field\<close>

text \<open>
  C4 as stated fails: \<^verbatim>\<open>Get\<close> of an absent property is \<open>undefined\<close>, whose
  \<^verbatim>\<open>NumberValue\<close> is NaN, and \<open>NaN + 42\<close> is NaN. After \<^verbatim>\<open>setup\<close> with a record that
  has no \<open>x\<close>, one call of \<^verbatim>\<open>mutate\<close> leaves \<open>x = NaN\<close>, not 42.
\<close>

theorem C4_counterexample:
  "heap (Setup (loaded empty_heap) (Object 0)) 0 ''x'' = None
   \<and> (case Mutate (Setup (loaded empty_heap) (Object 0)) of
         Inl e \<Rightarrow> None
       | Inr s' \<Rightarrow> heap s' 0 ''x'') = Some (Number NaN)
   \<and> Number NaN \<noteq> Number (double_of_int 42)"
  by (simp add: Mutate_def Setup_def loaded_def empty_heap_def Local_New_def Get_def Set_def
      Number_New_def Let_def double_42)

text \<open>
  C4 (amended). For every registered record that has no \<open>x\<close>, one mutation by
  \<^verbatim>\<open>mutate()\<close> reads the current value as NaN and completes, leaving NaN in \<open>x\<close>.
\<close>

theorem C4_missing_field_is_NaN:
  assumes "persist s = Some r" and "heap s r ''x'' = None"
  shows "\<exists>s'. Mutate s = Inr s' \<and> heap s' r ''x'' = Some (Number NaN)"
proof -
  have nx: "number_x s r = NaN"
    using assms(2) by (simp add: number_x_def Get_def)
  show ?thesis
    using assms(1) by (simp add: Mutate_registered nx)
qed

theorem C4_missing_field_is_NaN_witness:
  "persist (Setup (loaded empty_heap) (Object 0)) = Some 0
   \<and> heap (Setup (loaded empty_heap) (Object 0)) 0 ''x'' = None
   \<and> (\<exists>s'. Mutate (Setup (loaded empty_heap) (Object 0)) = Inr s'
          \<and> heap s' 0 ''x'' = Some (Number NaN))"
proof -
  let ?s = "Setup (loaded empty_heap) (Object 0)"
  have h: "persist ?s = Some 0" "heap ?s 0 ''x'' = None"
    by (simp_all add: Setup_def loaded_def empty_heap_def)
  from C4_missing_field_is_NaN [OF h] h show ?thesis by simp
qed

section \<open>Calls on an unregistered record\<close>

text \<open>
  C8 as stated fails for the call before any registration: \<^verbatim>\<open>persist\<close> is empty, so is the
  local handle made from it, and \<^verbatim>\<open>mutate()\<close> calls \<^verbatim>\<open>ToObject\<close> through it. The call does
  not complete, whereas after \<^verbatim>\<open>setup\<close> it does.
\<close>

theorem C8_counterexample:
  "Mutate (loaded empty_heap) = Inl EmptyHandle
   \<and> isl (Mutate (loaded empty_heap))
   \<and> \<not> isl (Mutate (Setup (loaded empty_heap) (Object 0)))"
  by (simp add: Mutate_def Setup_def loaded_def Local_New_def Let_def)

text \<open>
  C8 (amended). No mutation path checks for an unregistered record. With a registered
  record \<^verbatim>\<open>mutate()\<close> completes, whatever the record holds; with none it calls through the
  empty handle and does not complete. Acquiring the locker cannot fail: the constructor
  returns when the locker is free and blocks otherwise. The iteration of the unsynchronized
  worker ends at the engine's locking check, with or without a registered record.
\<close>

theorem C8_no_error_taxonomy:
  "(persist s = Some r \<longrightarrow> (\<exists>s'. Mutate s = Inr s'))
 \<and> (persist s = None \<longrightarrow> Mutate s = Inl EmptyHandle)
 \<and> (t < length (threads s) \<and> threads s ! t = AcquiringLock \<longrightarrow>
      (if locker s = None then \<exists>s'. mutate_v3_step t s = Inr s' \<and> locker s' = Some (Worker t)
       else mutate_v3_step t s = Inl Blocked))
 \<and> (t < length (threads s) \<and> threads s ! t \<noteq> Sleeping \<and> locker s \<noteq> Some (Worker t) \<longrightarrow>
      mutate_v2_step t s = Inl NotLocked)"
  by (simp add: Mutate_registered Mutate_unregistered step_acquire step_blocked
      mutate_v2_step_not_locked)

theorem C8_no_error_taxonomy_witness:
  "(persist (Setup (loaded empty_heap) (Object 0)) = Some 0
    \<and> (\<exists>s'. Mutate (Setup (loaded empty_heap) (Object 0)) = Inr s'))
   \<and> (persist (loaded empty_heap) = None
    \<and> Mutate (loaded empty_heap) = Inl EmptyHandle)
   \<and> (\<exists>s'. mutate_v3_step 0 \<lparr>heap = empty_heap, persist = Some 0, threads = [AcquiringLock],
              locker = None, calls = []\<rparr> = Inr s' \<and> locker s' = Some (Worker 0))
   \<and> mutate_v3_step 0 \<lparr>heap = empty_heap, persist = Some 0, threads = [AcquiringLock],
              locker = Some Host, calls = []\<rparr> = Inl Blocked
   \<and> mutate_v2_step 0 \<lparr>heap = empty_heap, persist = Some 0, threads = [InCriticalSection],
              locker = Some Host, calls = []\<rparr> = Inl NotLocked
   \<and> mutate_v2_step 0 \<lparr>heap = empty_heap, persist = None, threads = [InCriticalSection],
              locker = Some Host, calls = []\<rparr> = Inl NotLocked"
proof -
  let ?a = "Setup (loaded empty_heap) (Object 0)"
  let ?b = "loaded empty_heap"
  let ?c = "\<lparr>heap = empty_heap, persist = Some 0, threads = [AcquiringLock],
              locker = None, calls = []\<rparr>"
  let ?d = "\<lparr>heap = empty_heap, persist = Some 0, threads = [AcquiringLock],
              locker = Some Host, calls = []\<rparr>"
  let ?e = "\<lparr>heap = empty_heap, persist = Some 0, threads = [InCriticalSection],
              locker = Some Host, calls = []\<rparr>"
  let ?f = "\<lparr>heap = empty_heap, persist = None, threads = [InCriticalSection],
              locker = Some Host, calls = []\<rparr>"
  have a: "persist ?a = Some 0" by (simp add: Setup_def)
  have b: "persist ?b = None" by (simp add: loaded_def)
  have c: "0 < length (threads ?c) \<and> threads ?c ! 0 = AcquiringLock" "locker ?c = None"
    by simp_all
  have d: "0 < length (threads ?d) \<and> threads ?d ! 0 = AcquiringLock" "locker ?d \<noteq> None"
    by simp_all
  have e: "0 < length (threads ?e) \<and> threads ?e ! 0 \<noteq> Sleeping \<and> locker ?e \<noteq> Some (Worker 0)"
    by simp
  have f: "0 < length (threads ?f) \<and> threads ?f ! 0 \<noteq> Sleeping \<and> locker ?f \<noteq> Some (Worker 0)"
    by simp
  have 1: "\<exists>s'. Mutate ?a = Inr s'"
    using C8_no_error_taxonomy [of ?a 0 0, THEN conjunct1, THEN mp, OF a] .
  have 2: "Mutate ?b = Inl EmptyHandle"
    using C8_no_error_taxonomy [of ?b 0 0, THEN conjunct2, THEN conjunct1, THEN mp, OF b] .
  have 3: "\<exists>s'. mutate_v3_step 0 ?c = Inr s' \<and> locker s' = Some (Worker 0)"
    using C8_no_error_taxonomy [of ?c 0 0, THEN conjunct2, THEN conjunct2, THEN conjunct1,
        THEN mp, OF c(1)] c(2)
    by simp
  have 4: "mutate_v3_step 0 ?d = Inl Blocked"
    using C8_no_error_taxonomy [of ?d 0 0, THEN conjunct2, THEN conjunct2, THEN conjunct1,
        THEN mp, OF d(1)] d(2)
    by simp
  have 5: "mutate_v2_step 0 ?e = Inl NotLocked"
    using C8_no_error_taxonomy [of ?e 0 0, THEN conjunct2, THEN conjunct2, THEN conjunct2,
        THEN mp, OF e] .
  have 6: "mutate_v2_step 0 ?f = Inl NotLocked"
    using C8_no_error_taxonomy [of ?f 0 0, THEN conjunct2, THEN conjunct2, THEN conjunct2,
        THEN mp, OF f] .
  from 1 2 3 4 5 6 a b show ?thesis by (intro conjI)
qed

section \<open>Registering twice\<close>



section \<open>What a mutation touches\<close>

text \<open>
  C10. A mutation, through \<^verbatim>\<open>mutate()\<close> or through a wake of the lock-guarded worker,
  changes nothing in the heap but property \<open>x\<close> of the registered record: every other
  record and every other property of that record are as before. What it stores depends on
  nothing but the former value of \<open>x\<close>: from two states that agree on it, the same value
  is stored.
\<close>

theorem C10_frame:
  assumes "persist s = Some r"
  shows "(\<exists>s'. Mutate s = Inr s'
            \<and> (\<forall>r'. r' \<noteq> r \<longrightarrow> heap s' r' = heap s r')
            \<and> (\<forall>key. key \<noteq> ''x'' \<longrightarrow> heap s' r key = heap s r key)
            \<and> (\<forall>s2::process. persist s2 = Some r \<and> heap s2 r ''x'' = heap s r ''x'' \<longrightarrow>
                  (\<exists>s2'. Mutate s2 = Inr s2' \<and> heap s2' r ''x'' = heap s' r ''x'')))
       \<and> (t < length (threads s) \<and> threads s ! t = Sleeping \<and> locker s = None \<longrightarrow>
           (\<exists>s'. mutate_v3_wake t s = Inr s'
            \<and> (\<forall>r'. r' \<noteq> r \<longrightarrow> heap s' r' = heap s r')
            \<and> (\<forall>key. key \<noteq> ''x'' \<longrightarrow> heap s' r key = heap s r key)
            \<and> (\<forall>s2::process. persist s2 = Some r \<and> heap s2 r ''x'' = heap s r ''x''
                    \<and> t < length (threads s2) \<and> threads s2 ! t = Sleeping \<and> locker s2 = None \<longrightarrow>
                  (\<exists>s2'. mutate_v3_wake t s2 = Inr s2' \<and> heap s2' r ''x'' = heap s' r ''x''))))"
proof (intro conjI impI)
  show "\<exists>s'. Mutate s = Inr s'
            \<and> (\<forall>r'. r' \<noteq> r \<longrightarrow> heap s' r' = heap s r')
            \<and> (\<forall>key. key \<noteq> ''x'' \<longrightarrow> heap s' r key = heap s r key)
            \<and> (\<forall>s2::process. persist s2 = Some r \<and> heap s2 r ''x'' = heap s r ''x'' \<longrightarrow>
                  (\<exists>s2'. Mutate s2 = Inr s2' \<and> heap s2' r ''x'' = heap s' r ''x''))"
  proof (intro exI conjI allI impI)
    show "Mutate s = Inr (s\<lparr>heap := (heap s)(r := (heap s r)(''x'' \<mapsto> Number (add (number_x s r) (double_of_int 42))))\<rparr>)"
      using assms by (rule Mutate_registered)
  next
    fix s2 :: process
    assume b: "persist s2 = Some r \<and> heap s2 r ''x'' = heap s r ''x''"
    then have "number_x s2 r = number_x s r" by (intro number_x_cong) simp
    with b show "Mutate s2 = Inr (s2\<lparr>heap := (heap s2)(r := (heap s2 r)(''x'' \<mapsto> Number (add (number_x s r) (double_of_int 42))))\<rparr>)"
      by (simp add: Mutate_registered)
  qed simp_all
next
  assume a: "t < length (threads s) \<and> threads s ! t = Sleeping \<and> locker s = None"
  have w: "\<And>s2. persist s2 = Some r \<and> t < length (threads s2) \<and> threads s2 ! t = Sleeping
            \<and> locker s2 = None \<Longrightarrow>
         mutate_v3_wake t s2 =
           Inr (s2\<lparr>heap := (heap s2)(r := (heap s2 r)(''x'' \<mapsto> Number (add (number_x s2 r) (double_of_int 42)))),
            calls := calls s2 @ map (Pair t)
              [SleepFor, Cerr, LockerCtor,
               IsolateEnter, Cerr, HandleScopeCtor, StringNewFromUtf8, LocalNew, ValueToObject,
               ObjectGet, ValueNumberValue, NumberNew, ObjectSet, HandleScopeDtor, LockerDtor]\<rparr>)"
    by (rule wake_registered) simp_all
  show "\<exists>s'. mutate_v3_wake t s = Inr s'
            \<and> (\<forall>r'. r' \<noteq> r \<longrightarrow> heap s' r' = heap s r')
            \<and> (\<forall>key. key \<noteq> ''x'' \<longrightarrow> heap s' r key = heap s r key)
            \<and> (\<forall>s2::process. persist s2 = Some r \<and> heap s2 r ''x'' = heap s r ''x''
                    \<and> t < length (threads s2) \<and> threads s2 ! t = Sleeping \<and> locker s2 = None \<longrightarrow>
                  (\<exists>s2'. mutate_v3_wake t s2 = Inr s2' \<and> heap s2' r ''x'' = heap s' r ''x''))"
  proof (intro exI conjI allI impI)
    show "mutate_v3_wake t s =
           Inr (s\<lparr>heap := (heap s)(r := (heap s r)(''x'' \<mapsto> Number (add (number_x s r) (double_of_int 42)))),
            calls := calls s @ map (Pair t)
              [SleepFor, Cerr, LockerCtor,
               IsolateEnter, Cerr, HandleScopeCtor, StringNewFromUtf8, LocalNew, ValueToObject,
               ObjectGet, ValueNumberValue, NumberNew, ObjectSet, HandleScopeDtor, LockerDtor]\<rparr>)"
      using assms a by (intro w) simp
  next
    fix s2 :: process
    assume b: "persist s2 = Some r \<and> heap s2 r ''x'' = heap s r ''x''
                    \<and> t < length (threads s2) \<and> threads s2 ! t = Sleeping \<and> locker s2 = None"
    then have "number_x s2 r = number_x s r" by (intro number_x_cong) simp
    with b show "mutate_v3_wake t s2 =
           Inr (s2\<lparr>heap := (heap s2)(r := (heap s2 r)(''x'' \<mapsto> Number (add (number_x s r) (double_of_int 42)))),
            calls := calls s2 @ map (Pair t)
              [SleepFor, Cerr, LockerCtor,
               IsolateEnter, Cerr, HandleScopeCtor, StringNewFromUtf8, LocalNew, ValueToObject,
               ObjectGet, ValueNumberValue, NumberNew, ObjectSet, HandleScopeDtor, LockerDtor]\<rparr>)"
      by (simp add: w)
  qed simp_all
qed

theorem C10_frame_witness:
  "persist (Start_v3 (unlocked (loaded (empty_heap(0 := [''y'' \<mapsto> Null])))) (Object 0)) = Some 0
   \<and> (\<exists>s' s2'. Mutate (Start_v3 (unlocked (loaded (empty_heap(0 := [''y'' \<mapsto> Null])))) (Object 0)) = Inr s'
          \<and> heap s' 1 = empty_heap 1 \<and> heap s' 0 ''y'' = Some Null
          \<and> Mutate (Setup (loaded empty_heap) (Object 0)) = Inr s2'
          \<and> heap s2' 0 ''x'' = heap s' 0 ''x'')
   \<and> (\<exists>s' s2'. mutate_v3_wake 0 (Start_v3 (unlocked (loaded (empty_heap(0 := [''y'' \<mapsto> Null])))) (Object 0)) = Inr s'
          \<and> heap s' 1 = empty_heap 1 \<and> heap s' 0 ''y'' = Some Null
          \<and> mutate_v3_wake 0 (Start_v3 (unlocked (loaded empty_heap)) (Object 0)) = Inr s2'
          \<and> heap s2' 0 ''x'' = heap s' 0 ''x'')"
proof -
  let ?s = "Start_v3 (unlocked (loaded (empty_heap(0 := [''y'' \<mapsto> Null])))) (Object 0)"
  let ?u = "Setup (loaded empty_heap) (Object 0)"
  let ?v = "Start_v3 (unlocked (loaded empty_heap)) (Object 0)"
  have h: "persist ?s = Some 0" "0 < length (threads ?s) \<and> threads ?s ! 0 = Sleeping \<and> locker ?s = None"
    by (simp_all add: Start_v3_def loaded_def unlocked_def)
  have g: "heap ?s 1 = empty_heap 1" "heap ?s 0 ''y'' = Some Null"
    by (simp_all add: Start_v3_def loaded_def unlocked_def)
  have u: "persist ?u = Some 0 \<and> heap ?u 0 ''x'' = heap ?s 0 ''x''"
    by (simp add: Setup_def Start_v3_def loaded_def unlocked_def empty_heap_def)
  have v: "persist ?v = Some 0 \<and> heap ?v 0 ''x'' = heap ?s 0 ''x''
      \<and> 0 < length (threads ?v) \<and> threads ?v ! 0 = Sleeping \<and> locker ?v = None"
    by (simp add: Start_v3_def loaded_def unlocked_def empty_heap_def)
  note f = C10_frame [OF h(1), of 0]
  from f [THEN conjunct1] obtain s1 where
    1: "Mutate ?s = Inr s1" "\<forall>r'. r' \<noteq> 0 \<longrightarrow> heap s1 r' = heap ?s r'"
       "\<forall>key. key \<noteq> ''x'' \<longrightarrow> heap s1 0 key = heap ?s 0 key"
       "\<forall>s2::process. persist s2 = Some 0 \<and> heap s2 0 ''x'' = heap ?s 0 ''x'' \<longrightarrow>
           (\<exists>s2'. Mutate s2 = Inr s2' \<and> heap s2' 0 ''x'' = heap s1 0 ''x'')"
    by (elim exE conjE)
  from 1(4) [THEN spec, of ?u, THEN mp, OF u] obtain u' where
    u1: "Mutate ?u = Inr u'" "heap u' 0 ''x'' = heap s1 0 ''x''"
    by (elim exE conjE)
  from f [THEN conjunct2, THEN mp, OF h(2)] obtain s2 where
    2: "mutate_v3_wake 0 ?s = Inr s2" "\<forall>r'. r' \<noteq> 0 \<longrightarrow> heap s2 r' = heap ?s r'"
       "\<forall>key. key \<noteq> ''x'' \<longrightarrow> heap s2 0 key = heap ?s 0 key"
       "\<forall>s2a::process. persist s2a = Some 0 \<and> heap s2a 0 ''x'' = heap ?s 0 ''x''
           \<and> 0 < length (threads s2a) \<and> threads s2a ! 0 = Sleeping \<and> locker s2a = None \<longrightarrow>
           (\<exists>s2'. mutate_v3_wake 0 s2a = Inr s2' \<and> heap s2' 0 ''x'' = heap s2 0 ''x'')"
    by (elim exE conjE)
  from 2(4) [THEN spec, of ?v, THEN mp, OF v] obtain v' where
    v1: "mutate_v3_wake 0 ?v = Inr v'" "heap v' 0 ''x'' = heap s2 0 ''x''"
    by (elim exE conjE)
  have "heap s1 1 = empty_heap 1" "heap s1 0 ''y'' = Some Null"
    using 1(2) [THEN spec, of 1] 1(3) [THEN spec, of "''y''"] g by simp_all
  moreover have "heap s2 1 = empty_heap 1" "heap s2 0 ''y'' = Some Null"
    using 2(2) [THEN spec, of 1] 2(3) [THEN spec, of "''y''"] g by simp_all
  ultimately show ?thesis using 1(1) u1 2(1) v1 h(1) by simp
qed

section \<open>The access discipline of the lock-guarded worker\<close>




section \<open>Release of the locker\<close>

text \<open>
  C7. A registered record, a worker asleep, the locker free: in the calls of \<open>n\<close> wakes of
  the worker, no locker is outstanding at any sleep or at the end, each of the \<open>n\<close>
  constructions is followed by its destruction, and the locker is free afterwards. The
  critical section has one way out, the end of the block, where the locker is destroyed:
  from any state in which the worker holds the isolate, its step either releases the locker
  and puts the worker to sleep, or is the call through an empty handle, after which the
  process does not continue.
\<close>

theorem C7_scoped_release:
  assumes "t < length (threads s)" "threads s ! t = Sleeping" "locker s = None"
    and "persist s = Some r"
  shows "(\<exists>s' cs. mutate_v3 n t s = Inr s' \<and> calls s' = calls s @ map (Pair t) cs
           \<and> released 0 cs
           \<and> count_list cs LockerCtor = n \<and> count_list cs LockerDtor = n
           \<and> locker s' = None \<and> threads s' ! t = Sleeping)
       \<and> (\<forall>u::process. t < length (threads u) \<and> threads u ! t = InCriticalSection \<longrightarrow>
             mutate_v3_step t u = Inl EmptyHandle
           \<or> (\<exists>u'. mutate_v3_step t u = Inr u' \<and> locker u' = None \<and> threads u' ! t = Sleeping))"
proof (intro conjI allI impI)
  fix u :: process
  assume a: "t < length (threads u) \<and> threads u ! t = InCriticalSection"
  show "mutate_v3_step t u = Inl EmptyHandle
      \<or> (\<exists>u'. mutate_v3_step t u = Inr u' \<and> locker u' = None \<and> threads u' ! t = Sleeping)"
  proof (cases "persist u")
    case None
    with a show ?thesis by (simp add: step_critical_unregistered)
  next
    case (Some r')
    with a show ?thesis by (simp add: step_critical)
  qed
next
  let ?w = "[SleepFor, Cerr, LockerCtor,
      IsolateEnter, Cerr, HandleScopeCtor, StringNewFromUtf8, LocalNew, ValueToObject,
      ObjectGet, ValueNumberValue, NumberNew, ObjectSet, HandleScopeDtor, LockerDtor]"
  from wakes_registered [OF assms, of n] obtain s' where
    1: "mutate_v3 n t s = Inr s'" "threads s' = threads s" "locker s' = None"
    "calls s' = calls s @ map (Pair t) (concat (replicate n ?w))"
    by (elim exE conjE)
  have 2: "released 0 (concat (replicate n ?w))" by (rule released_wakes)
  have 3: "count_list (concat (replicate n ?w)) LockerCtor = n"
    "count_list (concat (replicate n ?w)) LockerDtor = n"
    by (simp_all add: count_list_concat_replicate)
  have 4: "threads s' ! t = Sleeping" using 1(2) assms(2) by simp
  from 1(1,3,4) 2 3 4
  show "\<exists>s' cs. mutate_v3 n t s = Inr s' \<and> calls s' = calls s @ map (Pair t) cs
           \<and> released 0 cs
           \<and> count_list cs LockerCtor = n \<and> count_list cs LockerDtor = n
           \<and> locker s' = None \<and> threads s' ! t = Sleeping"
    by (intro exI conjI)
qed

theorem C7_scoped_release_witness:
  "0 < length (threads (Start_v3 (unlocked (loaded empty_heap)) (Object 0)))
   \<and> threads (Start_v3 (unlocked (loaded empty_heap)) (Object 0)) ! 0 = Sleeping
   \<and> locker (Start_v3 (unlocked (loaded empty_heap)) (Object 0)) = None
   \<and> persist (Start_v3 (unlocked (loaded empty_heap)) (Object 0)) = Some 0
   \<and> (\<exists>s' cs. mutate_v3 3 0 (Start_v3 (unlocked (loaded empty_heap)) (Object 0)) = Inr s'
           \<and> calls s' = calls (Start_v3 (unlocked (loaded empty_heap)) (Object 0)) @ map (Pair 0) cs
           \<and> released 0 cs
           \<and> count_list cs LockerCtor = 3 \<and> count_list cs LockerDtor = 3
           \<and> locker s' = None \<and> threads s' ! 0 = Sleeping)
   \<and> (\<exists>u'. mutate_v3_step 0
          \<lparr>heap = empty_heap, persist = Some 0, threads = [InCriticalSection],
           locker = Some (Worker 0), calls = []\<rparr> = Inr u'
         \<and> locker u' = None \<and> threads u' ! 0 = Sleeping)"
proof -
  let ?s = "Start_v3 (unlocked (loaded empty_heap)) (Object 0)"
  let ?u = "\<lparr>heap = empty_heap, persist = Some 0, threads = [InCriticalSection],
           locker = Some (Worker 0), calls = []\<rparr>"
  have h: "0 < length (threads ?s)" "threads ?s ! 0 = Sleeping" "locker ?s = None"
    "persist ?s = Some 0"
    by (simp_all add: Start_v3_def loaded_def unlocked_def)
  have u: "0 < length (threads ?u) \<and> threads ?u ! 0 = InCriticalSection" by simp
  have n: "mutate_v3_step 0 ?u \<noteq> Inl EmptyHandle"
    by (simp add: mutate_v3_step_def Local_New_def Let_def)
  note f = C7_scoped_release [OF h, of 3]
  from f [THEN conjunct2, THEN spec, of ?u, THEN mp, OF u] n
  have "\<exists>u'. mutate_v3_step 0 ?u = Inr u' \<and> locker u' = None \<and> threads u' ! 0 = Sleeping"
    by simp
  with f [THEN conjunct1] h show ?thesis by (intro conjI)
qed

section \<open>Mutual exclusion\<close>

text \<open>
  C3. In every state the process reaches from the loaded addon, by calls of \<^verbatim>\<open>start\<close> on
  the host thread and steps of the workers in any order, at most one worker is between the
  construction and the destruction of its locker, and the locker is held by that worker and
  by no other thread. A worker that asks for the locker meanwhile is blocked. This holds
  with the host thread holding the locker from the start, as it does, and also from the
  state in which the locker is free, where the workers contend for it.
\<close>

theorem C3_mutual_exclusion:
  "run_v3 as (loaded h) = Inr s \<or> run_v3 as (unlocked (loaded h)) = Inr s \<Longrightarrow>
   mutual_exclusion s \<and> token_held s"
proof -
  assume r: "run_v3 as (loaded h) = Inr s \<or> run_v3 as (unlocked (loaded h)) = Inr s"
  have 1: "token_held (loaded h)"
    "\<forall>u. locker (loaded h) = Some (Worker u) \<longrightarrow> u < length (threads (loaded h))"
    by (simp_all add: token_held_iff loaded_def)
  have 2: "token_held (unlocked (loaded h))"
    "\<forall>u. locker (unlocked (loaded h)) = Some (Worker u)
       \<longrightarrow> u < length (threads (unlocked (loaded h)))"
    by (simp_all add: token_held_iff loaded_def unlocked_def)
  from r have "token_held s"
  proof
    assume "run_v3 as (loaded h) = Inr s"
    from token_run [OF this 1] show ?thesis by simp
  next
    assume "run_v3 as (unlocked (loaded h)) = Inr s"
    from token_run [OF this 2] show ?thesis by simp
  qed
  then show ?thesis by (simp add: token_mutual_exclusion)
qed

theorem C3_mutual_exclusion_witness:
  "run_v3 [HostStart (Object 0), HostStart (Object 0), WorkerStep 0, WorkerStep 0, WorkerStep 1]
     (unlocked (loaded empty_heap)) =
   Inr \<lparr>heap = empty_heap, persist = Some 0, threads = [InCriticalSection, AcquiringLock],
        locker = Some (Worker 0),
        calls = [(0, SleepFor), (0, Cerr), (0, LockerCtor), (1, SleepFor), (1, Cerr)]\<rparr>
   \<and> mutual_exclusion
     \<lparr>heap = empty_heap, persist = Some 0, threads = [InCriticalSection, AcquiringLock],
      locker = Some (Worker 0),
      calls = [(0, SleepFor), (0, Cerr), (0, LockerCtor), (1, SleepFor), (1, Cerr)]\<rparr>
   \<and> token_held
     \<lparr>heap = empty_heap, persist = Some 0, threads = [InCriticalSection, AcquiringLock],
      locker = Some (Worker 0),
      calls = [(0, SleepFor), (0, Cerr), (0, LockerCtor), (1, SleepFor), (1, Cerr)]\<rparr>
   \<and> mutate_v3_step 1
     \<lparr>heap = empty_heap, persist = Some 0, threads = [InCriticalSection, AcquiringLock],
      locker = Some (Worker 0),
      calls = [(0, SleepFor), (0, Cerr), (0, LockerCtor), (1, SleepFor), (1, Cerr)]\<rparr>
     = Inl Blocked
   \<and> run_v3 [HostStart (Object 0), WorkerStep 0] (loaded empty_heap) =
     Inr \<lparr>heap = empty_heap, persist = Some 0, threads = [AcquiringLock],
        locker = Some Host, calls = [(0, SleepFor), (0, Cerr)]\<rparr>
   \<and> mutual_exclusion
     \<lparr>heap = empty_heap, persist = Some 0, threads = [AcquiringLock],
        locker = Some Host, calls = [(0, SleepFor), (0, Cerr)]\<rparr>
   \<and> token_held
     \<lparr>heap = empty_heap, persist = Some 0, threads = [AcquiringLock],
        locker = Some Host, calls = [(0, SleepFor), (0, Cerr)]\<rparr>"
proof -
  let ?s5 = "\<lparr>heap = empty_heap, persist = Some 0, threads = [InCriticalSection, AcquiringLock],
      locker = Some (Worker 0),
      calls = [(0, SleepFor), (0, Cerr), (0, LockerCtor), (1, SleepFor), (1, Cerr)]\<rparr>"
  let ?s2 = "\<lparr>heap = empty_heap, persist = Some 0, threads = [AcquiringLock],
        locker = Some Host, calls = [(0, SleepFor), (0, Cerr)]\<rparr>"
  have r: "run_v3 [HostStart (Object 0), HostStart (Object 0), WorkerStep 0, WorkerStep 0, WorkerStep 1]
     (unlocked (loaded empty_heap)) = Inr ?s5"
    by (simp add: Start_v3_def loaded_def unlocked_def mutate_v3_step_def record_calls_def)
  have b: "mutate_v3_step 1 ?s5 = Inl Blocked"
    by (simp add: mutate_v3_step_def)
  have q: "run_v3 [HostStart (Object 0), WorkerStep 0] (loaded empty_heap) = Inr ?s2"
    by (simp add: Start_v3_def loaded_def mutate_v3_step_def record_calls_def)
  from C3_mutual_exclusion [of _ empty_heap ?s5, OF disjI2, OF r]
    C3_mutual_exclusion [of _ empty_heap ?s2, OF disjI1, OF q] r b q
  show ?thesis by (intro conjI) simp_all
qed

end
